theory Spec2Isabelle
  imports Complex_Main "HOL-Library.Multiset" "HOL-Library.Sublist" "HOL-Library.Char_ord"
begin

unbundle bit_operations_syntax

section \<open>Bit-level output: \<open>OutputBitstream\<close> (huff-compress.py)\<close>

text \<open>
  A bit is the Python integer 0 or 1; it is modelled as a \<open>bool\<close> (\<open>False\<close> is 0,
  \<open>True\<close> is 1) and enters arithmetic through \<open>of_bool\<close>. A byte is a Python
  integer, modelled as a \<open>nat\<close>. The stream object owns the list of pending bits
  (\<open>self.buffer\<close>) and the file it writes to; the file is modelled by the list of all
  bytes written to it so far.
\<close>

type_synonym bit = bool
type_synonym byte = nat

record OutputBitstream =
  out_file :: "byte list"
  out_buffer :: "bit list"

definition OutputBitstream_init :: OutputBitstream where
  "OutputBitstream_init = \<lparr>out_file = [], out_buffer = []\<rparr>"

text \<open>The inner loop of \<open>flush\<close>: \<open>byte = (byte << 1 | bit)\<close> over the eight bits.\<close>

definition pack_byte :: "bit list \<Rightarrow> byte" where
  "pack_byte byte_bits = fold (\<lambda>bit byte. push_bit 1 byte OR of_bool bit) byte_bits 0"

text \<open>
  The outer loop of \<open>flush\<close>: \<open>while len(self.buffer) >= 8\<close>. Each byte appended is
  packed from eight bits and so is below 256 (lemma \<open>pack_byte_bound\<close> below):
  \<open>bytes(byte_list)\<close> accepts the list.
\<close>

function flush_loop :: "bit list \<Rightarrow> byte list \<Rightarrow> bit list \<times> byte list" where
  "flush_loop buffer byte_list =
     (if length buffer \<ge> 8
      then flush_loop (drop 8 buffer) (byte_list @ [pack_byte (take 8 buffer)])
      else (buffer, byte_list))"
  by pat_completeness auto
termination
  by (relation "measure (\<lambda>(buffer, byte_list). length buffer)") auto

declare flush_loop.simps [simp del]

definition flush :: "OutputBitstream \<Rightarrow> OutputBitstream" where
  "flush s =
     (case flush_loop (out_buffer s) [] of
        (buffer, byte_list) \<Rightarrow> \<lparr>out_file = out_file s @ byte_list, out_buffer = buffer\<rparr>)"

definition "write" :: "bit list \<Rightarrow> OutputBitstream \<Rightarrow> OutputBitstream" where
  "write bits s = flush (s\<lparr>out_buffer := out_buffer s @ bits\<rparr>)"

definition write_eof :: "bit list \<Rightarrow> OutputBitstream \<Rightarrow> OutputBitstream" where
  "write_eof bits s =
     (let buffer = out_buffer s @ bits;
          padding_required = length buffer mod 8;
          buffer = (if padding_required \<noteq> 0
                    then buffer @ replicate padding_required False
                    else buffer)
      in flush (s\<lparr>out_buffer := buffer\<rparr>))"

section \<open>Bit-level input: \<open>InputBitstream\<close> (huff-decompress.py)\<close>

text \<open>
  Exceptions of the Python runtime that the modelled code can raise: \<open>IndexError\<close>
  (\<open>deque.popleft\<close> on an empty deque, \<open>list.pop\<close> on an empty list, an index out of
  range) and \<open>KeyError\<close> (a dictionary lookup of an absent key).
\<close>

datatype exn = IndexError | KeyError

text \<open>
  \<open>buffer\<close> is the deque of the bytes of the file not yet unpacked, \<open>bit_buffer\<close> the
  deque of unpacked bits not yet handed out. The constructor reads the whole file into
  \<open>buffer\<close>.
\<close>

record InputBitstream =
  buffer :: "byte list"
  bit_buffer :: "bit list"

definition InputBitstream_init :: "byte list \<Rightarrow> InputBitstream" where
  "InputBitstream_init file = \<lparr>buffer = file, bit_buffer = []\<rparr>"

text \<open>
  The body of the \<open>while\<close> loop of \<open>buffer_up\<close> after the byte was popped:
  \<open>for i in range(0,8): bits.append(byte & 1); byte = byte >> 1\<close>, then
  \<open>bits.reverse()\<close>.
\<close>

definition unpack_byte :: "byte \<Rightarrow> bit list" where
  "unpack_byte byte =
     rev (snd (fold (\<lambda>i (byte, bits). (drop_bit 1 byte, bits @ [byte AND 1 = 1]))
                    [0..<8] (byte, [])))"

function buffer_up :: "nat \<Rightarrow> InputBitstream \<Rightarrow> exn + InputBitstream" where
  "buffer_up n s =
     (if length (bit_buffer s) < n
      then (case buffer s of
              [] \<Rightarrow> Inl IndexError
            | byte # rest \<Rightarrow>
                buffer_up n \<lparr>buffer = rest, bit_buffer = bit_buffer s @ unpack_byte byte\<rparr>)
      else Inr s)"
  by pat_completeness auto
termination
  by (relation "measure (\<lambda>(n, s). length (buffer s))") auto

declare buffer_up.simps [simp del]

text \<open>\<open>self.bit_buffer.popleft()\<close>: raises on an empty deque.\<close>

definition bit_buffer_popleft :: "InputBitstream \<Rightarrow> exn + (bit \<times> InputBitstream)" where
  "bit_buffer_popleft s =
     (case bit_buffer s of
        [] \<Rightarrow> Inl IndexError
      | b # bs \<Rightarrow> Inr (b, s\<lparr>bit_buffer := bs\<rparr>))"

definition popleft :: "InputBitstream \<Rightarrow> exn + (bit \<times> InputBitstream)" where
  "popleft s =
     (if length (bit_buffer s) = 0
      then (case buffer_up 1 s of
              Inl e \<Rightarrow> Inl e
            | Inr s' \<Rightarrow> bit_buffer_popleft s')
      else bit_buffer_popleft s)"

section \<open>Symbols and the Huffman tree\<close>

text \<open>
  A token is a Python string (one character, or one word in the word model) or the
  pseudo end-of-file symbol, the integer \<open>-1\<close>, which no string equals.
\<close>

datatype symbol = Tok string | EOF_SYMBOL

text \<open>
  \<open>HNodeLeaf\<close> holds a value, \<open>HNode\<close> a left and a right subtree. Every \<open>HNode\<close> the
  program constructs (in \<open>build_tree\<close>) is given both children, so the two children are
  arguments of the constructor.
\<close>

datatype 'a hnode = HNodeLeaf 'a | HNode "'a hnode" "'a hnode"

text \<open>\<open>HNodeLeaf.decode\<close> and \<open>HNode.decode\<close>.\<close>

fun decode :: "'a hnode \<Rightarrow> InputBitstream \<Rightarrow> exn + ('a \<times> InputBitstream)" where
  "decode (HNodeLeaf v) bitstream = Inr (v, bitstream)"
| "decode (HNode l r) bitstream =
     (case popleft bitstream of
        Inl e \<Rightarrow> Inl e
      | Inr (b, bitstream') \<Rightarrow>
          if b = False then decode l bitstream' else decode r bitstream')"

text \<open>
  \<open>decompress\<close>: the \<open>while True\<close> loop. The state is the bit stream and the text written
  to the output file so far. The result is the text in the output file together with
  either the exception that ended the loop or the bit stream as it is when the loop
  breaks. The loop need not end (a tree that is a single leaf holding a string never
  yields the end-of-file symbol), so the function is partial: \<open>None\<close> is a run that never
  returns.
\<close>

partial_function (option) decompress_loop ::
  "symbol hnode \<Rightarrow> InputBitstream \<Rightarrow> string \<Rightarrow> (string \<times> (exn + InputBitstream)) option"
where
  "decompress_loop huffman_tree bitstream outfile =
     (case decode huffman_tree bitstream of
        Inl e \<Rightarrow> Some (outfile, Inl e)
      | Inr (token, bitstream') \<Rightarrow>
          (case token of
             EOF_SYMBOL \<Rightarrow> Some (outfile, Inr bitstream')
           | Tok str \<Rightarrow> decompress_loop huffman_tree bitstream' (outfile @ str)))"

declare decompress_loop.simps [code]

definition decompress ::
  "symbol hnode \<Rightarrow> byte list \<Rightarrow> (string \<times> (exn + InputBitstream)) option" where
  "decompress huffman_tree compressedfile =
     decompress_loop huffman_tree (InputBitstream_init compressedfile) []"

section \<open>Tokenizer (huff-compress.py)\<close>

text \<open>The character class \<open>[a-zA-Z]\<close> of the regular expression \<open>word_re\<close>.\<close>

definition is_word_char :: "char \<Rightarrow> bool" where
  "is_word_char c =
     ((CHR ''a'' \<le> c \<and> c \<le> CHR ''z'') \<or> (CHR ''A'' \<le> c \<and> c \<le> CHR ''Z''))"

text \<open>
  \<open>word_re.search(str, offset)\<close> for the pattern \<open>[a-zA-Z]+\<close>: the leftmost match at or
  after \<open>offset\<close>, extended greedily; the result is the match's span, or \<open>None\<close> when no
  character of the class occurs from \<open>offset\<close> on.
\<close>

definition word_re_search :: "string \<Rightarrow> nat \<Rightarrow> (nat \<times> nat) option" where
  "word_re_search str offset =
     (let word_start = offset + length (takeWhile (\<lambda>c. \<not> is_word_char c) (drop offset str));
          word_end = word_start + length (takeWhile is_word_char (drop word_start str))
      in if word_start < length str then Some (word_start, word_end) else None)"

text \<open>The slice \<open>str[i:j]\<close> for \<open>0 \<le> i\<close>, \<open>0 \<le> j\<close>.\<close>

definition slice :: "'a list \<Rightarrow> nat \<Rightarrow> nat \<Rightarrow> 'a list" where
  "slice xs i j = take (j - i) (drop i xs)"

text \<open>\<open>list(s)\<close> for a string \<open>s\<close>: its characters as one-character strings.\<close>

definition list_of_str :: "string \<Rightarrow> string list" where
  "list_of_str s = map (\<lambda>c. [c]) s"

lemma word_re_search_progress:
  assumes "word_re_search str offset = Some (word_start, word_end)"
  shows "offset < word_end"
proof -
  let ?ws = "offset + length (takeWhile (\<lambda>c. \<not> is_word_char c) (drop offset str))"
  from assms have ws: "word_start = ?ws" and lt: "?ws < length str"
    and we: "word_end = ?ws + length (takeWhile is_word_char (drop ?ws str))"
    by (auto simp: word_re_search_def Let_def split: if_splits)
  have "drop ?ws str = dropWhile (\<lambda>c. \<not> is_word_char c) (drop offset str)"
    by (simp add: dropWhile_eq_drop add.commute)
  moreover from lt have "drop ?ws str \<noteq> []" by simp
  ultimately have "is_word_char (hd (drop ?ws str))"
    using hd_dropWhile [of "\<lambda>c. \<not> is_word_char c" "drop offset str"] by simp
  with \<open>drop ?ws str \<noteq> []\<close> have "takeWhile is_word_char (drop ?ws str) \<noteq> []"
    by (cases "drop ?ws str") auto
  with we show ?thesis by (simp add: ws)
qed

function word_tokenize_loop :: "string \<Rightarrow> nat \<Rightarrow> string list \<Rightarrow> string list" where
  "word_tokenize_loop str offset tokens =
     (if offset < length str
      then (case word_re_search str offset of
              Some (word_start, word_end) \<Rightarrow>
                word_tokenize_loop str word_end
                  (tokens @ list_of_str (slice str offset word_start)
                          @ [slice str word_start word_end])
            | None \<Rightarrow>
                word_tokenize_loop str (length str)
                  (tokens @ list_of_str (drop offset str)))
      else tokens)"
  by pat_completeness auto
termination
  by (relation "measure (\<lambda>(str, offset, tokens). length str - offset)")
     (auto dest: word_re_search_progress)

declare word_tokenize_loop.simps [simp del]

definition word_tokenize :: "string \<Rightarrow> string list" where
  "word_tokenize str = word_tokenize_loop str 0 []"

text \<open>
  \<open>tokenize\<close>, applied to the text read from the input file. \<open>symbolmodel\<close> is the value of
  the command-line option: \<open>None\<close> when the option is absent.
\<close>

definition tokenize :: "string \<Rightarrow> string option \<Rightarrow> symbol list" where
  "tokenize input symbolmodel =
     (let tokens = (if symbolmodel = Some ''word''
                    then word_tokenize input
                    else list_of_str input)
      in map Tok tokens @ [EOF_SYMBOL])"

section \<open>Symbol probabilities\<close>

text \<open>
  \<open>OrderBy\<close> pairs a tree node with its probability. Its comparison operator
  \<open>__lt__\<close>, the only one \<open>heapq\<close> calls, compares the probabilities alone.

  Probabilities are Python floats. The model leaves their type \<open>'p\<close> open: it only
  needs a comparison \<open>(<)\<close> and an addition \<open>(+)\<close> on \<open>'p\<close>, about which nothing is
  assumed, and the division \<open>count / total_token_count\<close> of two integers is the
  parameter \<open>fdiv\<close>.
\<close>

datatype ('v, 'p) OrderBy = OrderBy (ob_value: 'v) (ob_p: 'p)

definition OrderBy_lt :: "('v, 'p::ord) OrderBy \<Rightarrow> ('v, 'p) OrderBy \<Rightarrow> bool" where
  "OrderBy_lt self other = (ob_p self < ob_p other)"

text \<open>
  \<open>unique_tokens[token] += 1\<close> on a \<open>defaultdict(int)\<close>. The dictionary keeps its keys in
  the order of their first insertion, and \<open>items()\<close> enumerates them in that order, so
  it is modelled as an association list: a key already present has its count
  incremented in place, a new key is appended with count 1.
\<close>

fun increment :: "'a \<Rightarrow> ('a \<times> nat) list \<Rightarrow> ('a \<times> nat) list" where
  "increment token [] = [(token, 1)]"
| "increment token ((k, cnt) # rest) =
     (if k = token then (k, cnt + 1) # rest else (k, cnt) # increment token rest)"

definition count_tokens :: "'a list \<Rightarrow> ('a \<times> nat) list" where
  "count_tokens tokens = fold increment tokens []"

definition calc_probabilites ::
  "(nat \<Rightarrow> nat \<Rightarrow> 'p) \<Rightarrow> 'a list \<Rightarrow> ('a hnode, 'p) OrderBy list" where
  "calc_probabilites fdiv tokens =
     (let total_token_count = length tokens;
          unique_tokens = count_tokens tokens
      in map (\<lambda>(token, cnt). OrderBy (HNodeLeaf token) (fdiv cnt total_token_count))
             unique_tokens)"

section \<open>The priority queue: \<open>heapq\<close> of the Python standard library\<close>

text \<open>
  The heap is a Python list. \<open>lt\<close> is the \<open>__lt__\<close> of its items. The functions follow
  \<open>heapq.py\<close>; a list index out of range raises \<open>IndexError\<close>, which in \<open>_siftdown\<close>
  and \<open>_siftup\<close> can only happen at their first statement \<open>newitem = heap[pos]\<close>: every
  later index is below \<open>pos\<close> or was compared with \<open>len(heap)\<close>.
\<close>

function siftdown_loop ::
  "('a \<Rightarrow> 'a \<Rightarrow> bool) \<Rightarrow> 'a list \<Rightarrow> 'a \<Rightarrow> nat \<Rightarrow> nat \<Rightarrow> 'a list" where
  "siftdown_loop lt heap newitem startpos pos =
     (if pos > startpos
      then (let parentpos = (pos - 1) div 2;
                parent = heap ! parentpos
            in if lt newitem parent
               then siftdown_loop lt (heap[pos := parent]) newitem startpos parentpos
               else heap[pos := newitem])
      else heap[pos := newitem])"
  by pat_completeness auto
termination
  by (relation "measure (\<lambda>(lt, heap, newitem, startpos, pos). pos)") auto

declare siftdown_loop.simps [simp del]

definition siftdown ::
  "('a \<Rightarrow> 'a \<Rightarrow> bool) \<Rightarrow> 'a list \<Rightarrow> nat \<Rightarrow> nat \<Rightarrow> exn + 'a list" where
  "siftdown lt heap startpos pos =
     (if pos < length heap
      then Inr (siftdown_loop lt heap (heap ! pos) startpos pos)
      else Inl IndexError)"

text \<open>
  The \<open>while\<close> loop of \<open>_siftup\<close>; it returns the list and the position of the hole
  where \<open>newitem\<close> is to be put.
\<close>

function siftup_loop :: "('a \<Rightarrow> 'a \<Rightarrow> bool) \<Rightarrow> 'a list \<Rightarrow> nat \<Rightarrow> 'a list \<times> nat" where
  "siftup_loop lt heap pos =
     (let endpos = length heap;
          childpos = 2 * pos + 1
      in if childpos < endpos
         then (let rightpos = childpos + 1;
                   childpos = (if rightpos < endpos \<and> \<not> lt (heap ! childpos) (heap ! rightpos)
                               then rightpos else childpos)
               in siftup_loop lt (heap[pos := heap ! childpos]) childpos)
         else (heap, pos))"
  by pat_completeness auto
termination
  by (relation "measure (\<lambda>(lt, heap, pos). length heap - pos)") (auto simp: Let_def)

declare siftup_loop.simps [simp del]

definition siftup :: "('a \<Rightarrow> 'a \<Rightarrow> bool) \<Rightarrow> 'a list \<Rightarrow> nat \<Rightarrow> exn + 'a list" where
  "siftup lt heap pos =
     (if pos < length heap
      then (let startpos = pos;
                newitem = heap ! pos
            in case siftup_loop lt heap pos of
                 (heap, pos) \<Rightarrow> siftdown lt (heap[pos := newitem]) startpos pos)
      else Inl IndexError)"

definition heappush :: "('a \<Rightarrow> 'a \<Rightarrow> bool) \<Rightarrow> 'a list \<Rightarrow> 'a \<Rightarrow> exn + 'a list" where
  "heappush lt heap item =
     (let heap = heap @ [item]
      in siftdown lt heap 0 (length heap - 1))"

definition heappop :: "('a \<Rightarrow> 'a \<Rightarrow> bool) \<Rightarrow> 'a list \<Rightarrow> exn + ('a \<times> 'a list)" where
  "heappop lt heap =
     (if heap = [] then Inl IndexError
      else (let lastelt = last heap;
                heap = butlast heap
            in if heap \<noteq> []
               then (let returnitem = heap ! 0
                     in case siftup lt (heap[0 := lastelt]) 0 of
                          Inl e \<Rightarrow> Inl e
                        | Inr heap \<Rightarrow> Inr (returnitem, heap))
               else Inr (lastelt, heap)))"

definition heapify :: "('a \<Rightarrow> 'a \<Rightarrow> bool) \<Rightarrow> 'a list \<Rightarrow> exn + 'a list" where
  "heapify lt x =
     (let n = length x
      in fold (\<lambda>i r. case r of Inl e \<Rightarrow> Inl e | Inr x \<Rightarrow> siftup lt x i)
              (rev [0..<n div 2]) (Inr x))"

text \<open>
  The heap operations keep the items of the list, whatever \<open>lt\<close> is; the loop of
  \<open>build_tree\<close> below ends because of it.
\<close>

lemma length_siftdown_loop [simp]:
  "length (siftdown_loop lt heap newitem startpos pos) = length heap"
  by (induction lt heap newitem startpos pos rule: siftdown_loop.induct)
     (subst siftdown_loop.simps, simp add: Let_def)

lemma mset_update_swap:
  assumes "i < length xs" "j < length xs" "i \<noteq> j"
  shows "mset (xs[i := xs ! j, j := x]) = mset (xs[i := x])"
  using assms by (simp add: mset_update nth_list_update_neq)

lemma mset_siftdown_loop:
  "pos < length heap \<Longrightarrow>
   mset (siftdown_loop lt heap newitem startpos pos) = mset (heap[pos := newitem])"
proof (induction lt heap newitem startpos pos rule: siftdown_loop.induct)
  case (1 lt heap newitem startpos pos)
  show ?case
  proof (cases "pos > startpos \<and> lt newitem (heap ! ((pos - 1) div 2))")
    case True
    let ?pp = "(pos - 1) div 2"
    from True "1.prems" have pp: "?pp < length heap" "?pp \<noteq> pos" by auto
    have "mset (siftdown_loop lt heap newitem startpos pos)
          = mset (siftdown_loop lt (heap[pos := heap ! ?pp]) newitem startpos ?pp)"
      using True by (subst siftdown_loop.simps) (simp add: Let_def)
    also have "\<dots> = mset (heap[pos := heap ! ?pp, ?pp := newitem])"
      using True pp "1.IH" [of ?pp "heap ! ?pp"] by simp
    also have "\<dots> = mset (heap[pos := newitem])"
      using pp "1.prems" by (simp add: mset_update_swap)
    finally show ?thesis .
  next
    case False
    then show ?thesis by (subst siftdown_loop.simps) (auto simp: Let_def)
  qed
qed

lemma siftup_loop_props:
  "siftup_loop lt heap pos = (heap', pos') \<Longrightarrow> pos < length heap \<Longrightarrow>
   length heap' = length heap \<and> pos' < length heap \<and> pos \<le> pos' \<and>
   mset (heap'[pos' := x]) = mset (heap[pos := x])"
proof (induction lt heap pos arbitrary: heap' pos' rule: siftup_loop.induct)
  case (1 lt heap pos)
  show ?case
  proof (cases "2 * pos + 1 < length heap")
    case False
    with "1.prems" show ?thesis
      by (subst (asm) siftup_loop.simps) (simp add: Let_def)
  next
    case True
    define c where "c = (if 2 * pos + 1 + 1 < length heap \<and>
        \<not> lt (heap ! (2 * pos + 1)) (heap ! (2 * pos + 1 + 1)) then 2 * pos + 1 + 1 else 2 * pos + 1)"
    from True have c: "c < length heap" "pos < c" by (auto simp: c_def)
    have "siftup_loop lt heap pos = siftup_loop lt (heap[pos := heap ! c]) c"
      unfolding c_def using True by (subst siftup_loop.simps) (simp add: Let_def)
    with "1.prems"(1) have rec: "siftup_loop lt (heap[pos := heap ! c]) c = (heap', pos')"
      by simp
    note ih0 = "1.IH" [OF refl refl True refl c_def rec]
    from ih0 c
    have ih: "length heap' = length heap" "pos' < length heap" "c \<le> pos'"
      "mset (heap'[pos' := x]) = mset (heap[pos := heap ! c, c := x])"
      by (simp_all add: c_def)
    from c "1.prems"(2) have "mset (heap[pos := heap ! c, c := x]) = mset (heap[pos := x])"
      by (simp add: mset_update_swap)
    with ih c show ?thesis by simp
  qed
qed

lemma siftup_Inr:
  assumes "pos < length heap"
  obtains heap' where "siftup lt heap pos = Inr heap'" "mset heap' = mset heap"
proof -
  obtain h p where lp: "siftup_loop lt heap pos = (h, p)" by (cases "siftup_loop lt heap pos")
  from siftup_loop_props [OF lp assms, of "heap ! pos"]
  have props: "length h = length heap" "p < length heap"
    "mset (h[p := heap ! pos]) = mset heap" by simp_all
  let ?h = "h[p := heap ! pos]"
  have "siftup lt heap pos = Inr (siftdown_loop lt ?h (?h ! p) pos p)"
    using assms props by (simp add: siftup_def lp siftdown_def Let_def)
  moreover have "mset (siftdown_loop lt ?h (?h ! p) pos p) = mset heap"
    using props by (simp add: mset_siftdown_loop)
  ultimately show ?thesis using that by blast
qed

lemma heappush_Inr:
  obtains heap' where "heappush lt heap item = Inr heap'"
    "mset heap' = add_mset item (mset heap)"
proof -
  let ?h = "heap @ [item]"
  have "heappush lt heap item = Inr (siftdown_loop lt ?h item 0 (length heap))"
    by (simp add: heappush_def siftdown_def)
  moreover have "mset (siftdown_loop lt ?h item 0 (length heap)) = add_mset item (mset heap)"
    by (simp add: mset_siftdown_loop)
  ultimately show ?thesis using that by blast
qed

lemma heappop_Inr:
  assumes "heap \<noteq> []"
  obtains x heap' where "heappop lt heap = Inr (x, heap')"
    "add_mset x (mset heap') = mset heap"
proof (cases "butlast heap = []")
  case True
  with assms have "heap = [last heap]" by (metis append_butlast_last_id append_Nil)
  then have "mset heap = {#last heap#}" by (metis mset_single_iff_right)
  with assms True that [of "last heap" "[]"] show ?thesis by (simp add: heappop_def)
next
  case False
  let ?b = "butlast heap"
  from False have len: "0 < length (?b[0 := last heap])" by (simp del: length_butlast)
  obtain h' where h': "siftup lt (?b[0 := last heap]) 0 = Inr h'"
    "mset h' = mset (?b[0 := last heap])"
    using siftup_Inr [OF len] by blast
  have "heappop lt heap = Inr (?b ! 0, h')"
    using assms False h' by (simp add: heappop_def Let_def)
  moreover have "add_mset (?b ! 0) (mset h') = mset heap"
  proof -
    from False obtain y ys where b: "?b = y # ys" by (cases ?b) auto
    from assms have "heap = ?b @ [last heap]" by simp
    then have "mset heap = add_mset (last heap) (mset ?b)" by (metis mset_append mset.simps union_mset_add_mset_right add.right_neutral)
    with b h' show ?thesis by simp
  qed
  ultimately show ?thesis using that by blast
qed

lemma heapify_Inr:
  obtains heap' where "heapify lt x = Inr heap'" "mset heap' = mset x"
proof -
  have "\<exists>h'. fold (\<lambda>i r. case r of Inl e \<Rightarrow> Inl e | Inr x \<Rightarrow> siftup lt x i) is (Inr h) = Inr h'
          \<and> mset h' = mset h" if "\<forall>i\<in>set is. i < length h" for "is" h
    using that
  proof (induction "is" arbitrary: h)
    case Nil
    then show ?case by simp
  next
    case (Cons i "is")
    from Cons.prems have "i < length h" by simp
    then obtain h1 where h1: "siftup lt h i = Inr h1" "mset h1 = mset h"
      using siftup_Inr by blast
    then have "length h1 = length h" by (metis size_mset)
    with Cons.prems have "\<forall>i\<in>set is. i < length h1" by simp
    from Cons.IH [OF this] h1 show ?case by simp
  qed
  moreover have "\<forall>i\<in>set (rev [0..<length x div 2]). i < length x" by auto
  ultimately obtain h' where
    "fold (\<lambda>i r. case r of Inl e \<Rightarrow> Inl e | Inr x \<Rightarrow> siftup lt x i)
       (rev [0..<length x div 2]) (Inr x) = Inr h'" "mset h' = mset x"
    by blast
  with that show ?thesis by (simp add: heapify_def)
qed

lemma heappop_length:
  assumes "heappop lt heap = Inr (x, heap')"
  shows "length heap = Suc (length heap')"
proof -
  from assms have ne: "heap \<noteq> []" by (cases "heap = []") (simp_all add: heappop_def)
  obtain y h where "heappop lt heap = Inr (y, h)" "add_mset y (mset h) = mset heap"
    using heappop_Inr [OF ne] by blast
  with assms have "add_mset x (mset heap') = mset heap" by simp
  from arg_cong [OF this, of size] show ?thesis by simp
qed

lemma heappush_length:
  assumes "heappush lt heap item = Inr heap'"
  shows "length heap' = Suc (length heap)"
proof -
  obtain h where "heappush lt heap item = Inr h" "mset h = add_mset item (mset heap)"
    using heappush_Inr [of lt heap item] by blast
  with assms have "mset heap' = add_mset item (mset heap)" by simp
  from arg_cong [OF this, of size] show ?thesis by simp
qed

section \<open>Tree construction: \<open>build_tree\<close>\<close>

function build_tree_loop ::
  "('a hnode, 'p::{ord,plus}) OrderBy list \<Rightarrow> exn + ('a hnode, 'p) OrderBy list" where
  "build_tree_loop heap =
     (if length heap > 1
      then (case heappop OrderBy_lt heap of
              Inl e \<Rightarrow> Inl e
            | Inr (l, heap1) \<Rightarrow>
                (case heappop OrderBy_lt heap1 of
                   Inl e \<Rightarrow> Inl e
                 | Inr (r, heap2) \<Rightarrow>
                     (case heappush OrderBy_lt heap2
                             (OrderBy (HNode (ob_value l) (ob_value r)) (ob_p l + ob_p r)) of
                        Inl e \<Rightarrow> Inl e
                      | Inr heap3 \<Rightarrow> build_tree_loop heap3)))
      else Inr heap)"
  by pat_completeness auto
termination
proof (relation "measure length", goal_cases)
  case 1
  show ?case by simp
next
  case (2 heap x l heap1 y r heap2 heap3)
  then show ?case
    using heappop_length [of OrderBy_lt heap l heap1]
      heappop_length [of OrderBy_lt heap1 r heap2]
      heappush_length [of OrderBy_lt heap2 _ heap3]
    by simp
qed

declare build_tree_loop.simps [simp del]

text \<open>\<open>heap[0].value\<close> raises \<open>IndexError\<close> on an empty list.\<close>

definition build_tree :: "('a hnode, 'p::{ord,plus}) OrderBy list \<Rightarrow> exn + 'a hnode" where
  "build_tree token_probs =
     (case heapify OrderBy_lt token_probs of
        Inl e \<Rightarrow> Inl e
      | Inr heap \<Rightarrow>
          (case build_tree_loop heap of
             Inl e \<Rightarrow> Inl e
           | Inr heap \<Rightarrow>
               (case heap of
                  [] \<Rightarrow> Inl IndexError
                | x # _ \<Rightarrow> Inr (ob_value x))))"

section \<open>Code table and encoder\<close>

text \<open>
  \<open>HNodeLeaf.make_lut\<close> and \<open>HNode.make_lut\<close>. The dictionary \<open>lut\<close> is a map; it is
  threaded through the traversal, left subtree first. \<open>compress\<close> calls
  \<open>huffman_tree.make_lut()\<close> once, with the defaults \<open>bits=[]\<close> and \<open>lut={}\<close>.
\<close>

fun make_lut :: "'a hnode \<Rightarrow> bit list \<Rightarrow> ('a \<rightharpoonup> bit list) \<Rightarrow> ('a \<rightharpoonup> bit list)" where
  "make_lut (HNodeLeaf v) bits lut = lut(v \<mapsto> bits)"
| "make_lut (HNode l r) bits lut =
     (let l_bits = bits @ [False];
          r_bits = bits @ [True];
          lut = make_lut l l_bits lut
      in make_lut r r_bits lut)"

text \<open>
  The loop of \<open>compress\<close>. \<open>lut[token]\<close> raises \<open>KeyError\<close> for a token without an
  entry.
\<close>

fun compress_loop ::
  "(symbol \<rightharpoonup> bit list) \<Rightarrow> symbol list \<Rightarrow> OutputBitstream \<Rightarrow> exn + OutputBitstream" where
  "compress_loop lut [] bitstream = Inr bitstream"
| "compress_loop lut (token # tokens) bitstream =
     (case lut token of
        None \<Rightarrow> Inl KeyError
      | Some code \<Rightarrow>
          compress_loop lut tokens
            (if token = EOF_SYMBOL then write_eof code bitstream else write code bitstream))"

text \<open>
  \<open>compress\<close>: the result is the content of the output file when the function returns
  (the stream is created on the file directly and is not flushed again when the file is
  closed), or the exception raised.
\<close>

definition compress :: "symbol list \<Rightarrow> symbol hnode \<Rightarrow> exn + byte list" where
  "compress tokens huffman_tree =
     (let bitstream = OutputBitstream_init;
          lut = make_lut huffman_tree [] Map.empty
      in case compress_loop lut tokens bitstream of
           Inl e \<Rightarrow> Inl e
         | Inr bitstream \<Rightarrow> Inr (out_file bitstream))"

section \<open>The two programs\<close>

text \<open>
  The script part of huff-compress.py: tokenize the input text, compute the
  probabilities, build the tree, encode. The result is the tree that is pickled and the
  content of the compressed file.
\<close>

definition huff_compress ::
  "(nat \<Rightarrow> nat \<Rightarrow> 'p::{ord,plus}) \<Rightarrow> string \<Rightarrow> string option \<Rightarrow> exn + (symbol hnode \<times> byte list)"
where
  "huff_compress fdiv input symbolmodel =
     (let tokens = tokenize input symbolmodel;
          token_probs = calc_probabilites fdiv tokens
      in case build_tree token_probs of
           Inl e \<Rightarrow> Inl e
         | Inr huffman_tree \<Rightarrow>
             (case compress tokens huffman_tree of
                Inl e \<Rightarrow> Inl e
              | Inr compressedfile \<Rightarrow> Inr (huffman_tree, compressedfile)))"

text \<open>
  For runs on concrete inputs the probabilities are rational numbers. The inputs used
  below have a number of tokens that is a power of two, so that every quotient and
  every sum that occurs is a dyadic rational which a float represents exactly.
\<close>

definition exact_fdiv :: "nat \<Rightarrow> nat \<Rightarrow> rat" where
  "exact_fdiv cnt n = of_nat cnt / of_nat n"

section \<open>Predicates used in the statements about the tokenizer\<close>

text \<open>
  A word token is a non-empty string of characters of the class \<open>[a-zA-Z]\<close>; the other
  kind of token is a single character outside the class. In a token list without two
  adjacent word tokens every word token is a maximal run.
\<close>

definition is_word :: "string \<Rightarrow> bool" where
  "is_word t = (t \<noteq> [] \<and> list_all is_word_char t)"

definition is_other_char :: "string \<Rightarrow> bool" where
  "is_other_char t = (case t of [c] \<Rightarrow> \<not> is_word_char c | _ \<Rightarrow> False)"

fun no_adjacent_words :: "string list \<Rightarrow> bool" where
  "no_adjacent_words (t1 # t2 # ts) =
     (\<not> (is_word t1 \<and> is_word t2) \<and> no_adjacent_words (t2 # ts))"
| "no_adjacent_words ts = True"

section \<open>Functions used in the statements about trees\<close>

text \<open>
  The values held by the leaves of a tree, from left to right, and the value of the leaf
  at which a path from the root ends (0 is the left child, 1 the right child), if the
  path ends at a leaf.
\<close>

fun leaves :: "'a hnode \<Rightarrow> 'a list" where
  "leaves (HNodeLeaf v) = [v]"
| "leaves (HNode l r) = leaves l @ leaves r"

fun leaf_at :: "'a hnode \<Rightarrow> bit list \<Rightarrow> 'a option" where
  "leaf_at (HNodeLeaf v) bits = (if bits = [] then Some v else None)"
| "leaf_at (HNode l r) [] = None"
| "leaf_at (HNode l r) (b # bits) = (if b = False then leaf_at l bits else leaf_at r bits)"

text \<open>
  The distinct elements of a list in the order of their first occurrence; the number of
  \<open>HNode\<close> nodes of a tree; and the values held by the leaves of all the trees of a
  heap, as a multiset.
\<close>

fun first_occurrences :: "'a list \<Rightarrow> 'a list" where
  "first_occurrences [] = []"
| "first_occurrences (x # xs) = x # removeAll x (first_occurrences xs)"

fun internal_nodes :: "'a hnode \<Rightarrow> nat" where
  "internal_nodes (HNodeLeaf v) = 0"
| "internal_nodes (HNode l r) = internal_nodes l + internal_nodes r + 1"

definition forest_leaves :: "('a hnode, 'p) OrderBy multiset \<Rightarrow> 'a multiset" where
  "forest_leaves M = (\<Sum>x\<in>#M. mset (leaves (ob_value x)))"

section \<open>The decoder as a state machine on the bit sequence\<close>

text \<open>
  The bits a reader has still to hand out: the pending bits, then the bits of the bytes
  not yet unpacked.
\<close>

definition remaining_bits :: "InputBitstream \<Rightarrow> bit list" where
  "remaining_bits s = bit_buffer s @ concat (map unpack_byte (buffer s))"

text \<open>
  The specification's decoder. Descending: from a node, bit 0 goes to the left child and
  bit 1 to the right child, until a leaf is reached; the result is the leaf's symbol and
  the bits not consumed, or \<open>None\<close> when the bits run out before a leaf.
\<close>

fun spec_descend :: "'a hnode \<Rightarrow> bit list \<Rightarrow> ('a \<times> bit list) option" where
  "spec_descend (HNodeLeaf v) bits = Some (v, bits)"
| "spec_descend (HNode l r) [] = None"
| "spec_descend (HNode l r) (b # bits) =
     (if b = False then spec_descend l bits else spec_descend r bits)"

text \<open>
  A run of the decoder from the root with the output so far: it fails when a descent
  runs out of bits, with the output unchanged; it ends successfully at a leaf holding
  the end-of-file symbol, with the output unchanged and the bits after the symbol's code
  left over; at any other leaf it appends the symbol to the output and descends again
  from the root.
\<close>

definition bits_left :: "exn + InputBitstream \<Rightarrow> exn + bit list" where
  "bits_left r = (case r of Inl e \<Rightarrow> Inl e | Inr s \<Rightarrow> Inr (remaining_bits s))"

inductive spec_decoder ::
  "symbol hnode \<Rightarrow> bit list \<Rightarrow> string \<Rightarrow> string \<times> (exn + bit list) \<Rightarrow> bool"
  for tree :: "symbol hnode" where
  truncated: "spec_descend tree bits = None \<Longrightarrow> spec_decoder tree bits out (out, Inl IndexError)"
| sentinel: "spec_descend tree bits = Some (EOF_SYMBOL, rest) \<Longrightarrow>
     spec_decoder tree bits out (out, Inr rest)"
| emit: "spec_descend tree bits = Some (Tok str, rest) \<Longrightarrow>
     spec_decoder tree rest (out @ str) res \<Longrightarrow> spec_decoder tree bits out res"

code_pred spec_decoder .

section \<open>Properties of the bit writer\<close>

lemma pack_byte_snoc: "pack_byte (bs @ [b]) = 2 * pack_byte bs + of_bool b"
proof -
  have "push_bit 1 (pack_byte bs) OR of_bool b = 2 * pack_byte bs + of_bool b"
    by (cases b) (simp_all add: push_bit_eq_mult or_Suc_0_eq)
  then show ?thesis by (simp add: pack_byte_def)
qed

lemma pack_byte_Nil: "pack_byte [] = 0"
  by (simp add: pack_byte_def)

lemma pack_byte_bound: "pack_byte bs < 2 ^ length bs"
proof (induction bs rule: rev_induct)
  case Nil
  then show ?case by (simp add: pack_byte_Nil)
next
  case (snoc b bs)
  then show ?case by (cases b) (simp_all add: pack_byte_snoc)
qed

text \<open>
  C2 (the terminal operation of the bit writer). With an empty pending buffer and the
  single final bit 1, \<open>write_eof\<close> computes \<open>padding_required = 1 % 8 = 1\<close> and appends
  one zero bit instead of seven; the buffer then holds two bits, \<open>flush\<close> finds no
  complete byte, and nothing reaches the file: the bit passed to \<open>write_eof\<close> is not
  among the bytes written, and the pending buffer is not emptied.
\<close>

theorem write_eof_single_bit_not_flushed:
  "write_eof [True] \<lparr>out_file = [], out_buffer = []\<rparr>
     = \<lparr>out_file = [], out_buffer = [True, False]\<rparr>"
  by (simp add: write_eof_def flush_def flush_loop.simps)

text \<open>
  C3 (writer and reader as inverses). The one-bit sequence 1, written by the terminal
  operation alone, produces an empty file (see above); the reader built on that file
  raises \<open>IndexError\<close> at the first bit, so the stream read back is empty and the
  sequence written is not a prefix of it.
\<close>

theorem write_eof_then_popleft_single_bit:
  "popleft (InputBitstream_init (out_file (write_eof [True] OutputBitstream_init)))
     = Inl IndexError"
  by code_simp

section \<open>Properties of the bit reader\<close>

lemma unpack_fold:
  "fold (\<lambda>i (byte, bits). (drop_bit 1 byte, bits @ [byte AND 1 = 1])) [0..<n] (byte, bits)
     = (drop_bit n byte, bits @ map (bit byte) [0..<n])"
proof (induction n)
  case 0
  then show ?case by simp
next
  case (Suc n)
  have "(drop_bit n byte AND 1 = 1) = bit byte n"
    by (simp add: and_one_eq bit_iff_odd_drop_bit mod_2_eq_odd)
  with Suc show ?case by (simp add: drop_bit_Suc drop_bit_half [symmetric] div_exp_eq)
qed

lemma unpack_byte_bits: "unpack_byte byte = map (bit byte) [7, 6, 5, 4, 3, 2, 1, 0]"
proof -
  have "unpack_byte byte = rev (map (bit byte) [0..<8])"
    by (simp only: unpack_byte_def unpack_fold snd_conv append_Nil)
  also have "[0..<8] = [0, 1, 2, 3, 4, 5, 6, 7::nat]" by (simp add: upt_rec)
  finally show ?thesis by simp
qed

lemma buffer_up_enough: "n \<le> length (bit_buffer s) \<Longrightarrow> buffer_up n s = Inr s"
  by (subst buffer_up.simps) simp

lemma buffer_up_1:
  "buffer_up 1 s =
     (if bit_buffer s \<noteq> [] then Inr s
      else case buffer s of
             [] \<Rightarrow> Inl IndexError
           | byte # rest \<Rightarrow> Inr \<lparr>buffer = rest, bit_buffer = unpack_byte byte\<rparr>)"
proof (cases "bit_buffer s \<noteq> []")
  case True
  then have "1 \<le> length (bit_buffer s)" by (cases "bit_buffer s") simp_all
  with True show ?thesis by (simp add: buffer_up_enough)
next
  case False
  show ?thesis
  proof (cases "buffer s")
    case Nil
    with False show ?thesis by (subst buffer_up.simps) simp
  next
    case (Cons byte rest)
    have "buffer_up 1 \<lparr>buffer = rest, bit_buffer = unpack_byte byte\<rparr>
          = Inr \<lparr>buffer = rest, bit_buffer = unpack_byte byte\<rparr>"
      by (rule buffer_up_enough) (simp add: unpack_byte_bits)
    with False Cons show ?thesis by (subst buffer_up.simps) simp
  qed
qed

lemma popleft_cases:
  "popleft s =
     (case bit_buffer s of
        b # bs \<Rightarrow> Inr (b, s\<lparr>bit_buffer := bs\<rparr>)
      | [] \<Rightarrow>
          (case buffer s of
             [] \<Rightarrow> Inl IndexError
           | byte # rest \<Rightarrow>
               Inr (bit byte 7,
                    \<lparr>buffer = rest, bit_buffer = map (bit byte) [6, 5, 4, 3, 2, 1, 0]\<rparr>)))"
  by (cases "bit_buffer s"; cases "buffer s")
     (simp_all add: popleft_def buffer_up_1 [simplified] bit_buffer_popleft_def unpack_byte_bits)

text \<open>
  C6 (the next-bit operation \<open>popleft\<close>). With a bit pending, \<open>popleft\<close> returns the
  first pending bit and leaves the byte source untouched. With no bit pending and a byte
  \<open>byte\<close> left in the source, it removes that one byte, unpacks it into its eight bits
  \<open>bit byte 7, ..., bit byte 0\<close> (most significant first), returns the first and keeps
  the other seven pending. It fails exactly when neither a pending bit nor a source
  byte is left, and the failure is \<open>IndexError\<close>, the end-of-input error.
\<close>

theorem popleft_contract:
  "popleft s =
     (case bit_buffer s of
        b # bs \<Rightarrow> Inr (b, s\<lparr>bit_buffer := bs\<rparr>)
      | [] \<Rightarrow>
          (case buffer s of
             [] \<Rightarrow> Inl IndexError
           | byte # rest \<Rightarrow>
               Inr (bit byte 7,
                    \<lparr>buffer = rest, bit_buffer = map (bit byte) [6, 5, 4, 3, 2, 1, 0]\<rparr>)))
   \<and> ((\<exists>e. popleft s = Inl e) = (bit_buffer s = [] \<and> buffer s = []))
   \<and> popleft s \<noteq> Inl KeyError"
  using popleft_cases [of s]
  by (cases "bit_buffer s"; cases "buffer s") simp_all

theorem popleft_contract_witness:
  "popleft \<lparr>buffer = [128, 3], bit_buffer = []\<rparr>
     = Inr (True, \<lparr>buffer = [3],
                    bit_buffer = [False, False, False, False, False, False, False]\<rparr>)
   \<and> popleft \<lparr>buffer = [128, 3], bit_buffer = [False, True]\<rparr>
     = Inr (False, \<lparr>buffer = [128, 3], bit_buffer = [True]\<rparr>)
   \<and> popleft \<lparr>buffer = [], bit_buffer = []\<rparr> = Inl IndexError"
  using popleft_contract [of "\<lparr>buffer = [128, 3], bit_buffer = []\<rparr>"]
    popleft_contract [of "\<lparr>buffer = [128, 3], bit_buffer = [False, True]\<rparr>"]
    popleft_contract [of "\<lparr>buffer = [], bit_buffer = []\<rparr>"]
  by (simp add: bit_numeral_iff [where ?'a = nat] bit_iff_odd)

section \<open>The round trip\<close>

text \<open>
  C1 (round trip). The text \<open>a\<close> in the character model has the tokens \<open>a\<close> and the
  end-of-file symbol, each with probability 1/2 and a one-bit code. The two code bits
  leave two bits pending; \<open>write_eof\<close> appends \<open>2 % 8 = 2\<close> zero bits, no byte is
  complete, and the compressed file is empty. Decompressing the empty file with the
  same tree raises \<open>IndexError\<close> at the first bit with nothing written: the output is
  the empty text and not \<open>a\<close>.
\<close>

theorem roundtrip_fails_on_single_char:
  "huff_compress exact_fdiv ''a'' None
     = Inr (HNode (HNodeLeaf EOF_SYMBOL) (HNodeLeaf (Tok ''a'')), [])
   \<and> decompress (HNode (HNodeLeaf EOF_SYMBOL) (HNodeLeaf (Tok ''a''))) []
     = Some ([], Inl IndexError)"
  by code_simp

section \<open>Properties of the tokenizer\<close>

lemma word_re_search_Some:
  assumes "word_re_search str offset = Some (ws, we)"
  shows "offset \<le> ws" "ws < we" "we \<le> length str"
    "list_all (\<lambda>c. \<not> is_word_char c) (slice str offset ws)"
    "list_all is_word_char (slice str ws we)"
    "we < length str \<Longrightarrow> \<not> is_word_char (str ! we)"
proof -
  let ?pre = "takeWhile (\<lambda>c. \<not> is_word_char c) (drop offset str)"
  let ?w = "takeWhile is_word_char (drop ws str)"
  from assms have ws: "ws = offset + length ?pre" and lt: "ws < length str"
    and we: "we = ws + length ?w"
    by (auto simp: word_re_search_def Let_def split: if_splits)
  show "offset \<le> ws" by (simp add: ws)
  show "ws < we" using word_re_search_progress [OF assms] assms
  proof -
    have "drop ws str = dropWhile (\<lambda>c. \<not> is_word_char c) (drop offset str)"
      by (simp add: ws dropWhile_eq_drop add.commute)
    moreover from lt have ne: "drop ws str \<noteq> []" by simp
    ultimately have "is_word_char (hd (drop ws str))"
      using hd_dropWhile [of "\<lambda>c. \<not> is_word_char c" "drop offset str"] by simp
    with ne have "?w \<noteq> []" by (cases "drop ws str") auto
    then show ?thesis by (simp add: we)
  qed
  have "length ?w \<le> length (drop ws str)" by (rule length_takeWhile_le)
  with lt show "we \<le> length str" by (simp add: we)
  have "slice str offset ws = ?pre"
    by (simp add: slice_def ws takeWhile_eq_take [symmetric])
  then show "list_all (\<lambda>c. \<not> is_word_char c) (slice str offset ws)"
    by (auto simp: list_all_iff dest: set_takeWhileD)
  have "slice str ws we = ?w"
    by (simp add: slice_def we takeWhile_eq_take [symmetric])
  then show "list_all is_word_char (slice str ws we)"
    by (auto simp: list_all_iff dest: set_takeWhileD)
  show "\<not> is_word_char (str ! we)" if "we < length str"
  proof -
    from that have "length ?w < length (drop ws str)" by (simp add: we)
    then have "\<not> is_word_char (drop ws str ! length ?w)" by (rule nth_length_takeWhile)
    with that lt show ?thesis by (simp add: we)
  qed
qed

lemma word_re_search_None:
  assumes "word_re_search str offset = None"
  shows "list_all (\<lambda>c. \<not> is_word_char c) (drop offset str)"
proof -
  let ?pre = "takeWhile (\<lambda>c. \<not> is_word_char c) (drop offset str)"
  from assms have "length str \<le> offset + length ?pre"
    by (auto simp: word_re_search_def Let_def split: if_splits)
  moreover have "length ?pre \<le> length (drop offset str)" by (rule length_takeWhile_le)
  ultimately have "length ?pre = length (drop offset str)" by simp
  then have "?pre = drop offset str"
    by (metis takeWhile_eq_take take_all order_refl)
  then have "\<forall>c\<in>set (drop offset str). \<not> is_word_char c"
    by (metis set_takeWhileD)
  then show ?thesis by (simp add: list_all_iff)
qed

lemma word_tokenize_loop_acc:
  "word_tokenize_loop str offset tokens = tokens @ word_tokenize_loop str offset []"
proof (induction "length str - offset" arbitrary: offset tokens rule: less_induct)
  case less
  show ?case
  proof (cases "offset < length str")
    case False
    then show ?thesis by (simp add: word_tokenize_loop.simps [of str offset])
  next
    case True
    show ?thesis
    proof (cases "word_re_search str offset")
      case None
      have stop: "word_tokenize_loop str (length str) ts = ts" for ts
        by (simp add: word_tokenize_loop.simps [of str "length str"])
      from True None show ?thesis
        by (simp add: word_tokenize_loop.simps [of str offset] stop)
    next
      case (Some p)
      obtain ws we where p: "p = (ws, we)" by (cases p)
      let ?A = "list_of_str (slice str offset ws) @ [slice str ws we]"
      from Some p word_re_search_progress have "offset < we" by blast
      with True have lt: "length str - we < length str - offset" by simp
      have "word_tokenize_loop str offset tokens = word_tokenize_loop str we (tokens @ ?A)"
        using True Some p by (simp add: word_tokenize_loop.simps [of str offset])
      also have "\<dots> = (tokens @ ?A) @ word_tokenize_loop str we []"
        by (rule less [OF lt])
      also have "\<dots> = tokens @ word_tokenize_loop str we ?A"
        using less [OF lt, of ?A] by simp
      also have "word_tokenize_loop str we ?A = word_tokenize_loop str offset []"
        using True Some p by (simp add: word_tokenize_loop.simps [of str offset])
      finally show ?thesis .
    qed
  qed
qed

lemma word_tokenize_loop_end:
  "length str \<le> offset \<Longrightarrow> word_tokenize_loop str offset [] = []"
  by (simp add: word_tokenize_loop.simps [of str offset])

lemma word_tokenize_loop_None:
  "offset < length str \<Longrightarrow> word_re_search str offset = None \<Longrightarrow>
   word_tokenize_loop str offset [] = list_of_str (drop offset str)"
  by (simp add: word_tokenize_loop.simps [of str offset])
     (simp add: word_tokenize_loop.simps [of str "length str"])

lemma word_tokenize_loop_Some:
  "offset < length str \<Longrightarrow> word_re_search str offset = Some (ws, we) \<Longrightarrow>
   word_tokenize_loop str offset [] =
     list_of_str (slice str offset ws) @ slice str ws we # word_tokenize_loop str we []"
  using word_tokenize_loop_acc [of str we "list_of_str (slice str offset ws) @ [slice str ws we]"]
  by (simp add: word_tokenize_loop.simps [of str offset])

lemma concat_list_of_str [simp]: "concat (list_of_str s) = s"
  by (induction s) (simp_all add: list_of_str_def)

lemma slice_append_drop: "i \<le> j \<Longrightarrow> slice xs i j @ drop j xs = drop i xs"
proof -
  assume "i \<le> j"
  then have "drop j xs = drop (j - i) (drop i xs)" by simp
  then show ?thesis by (simp only: slice_def append_take_drop_id)
qed

lemma not_is_word_single: "\<not> is_word_char c \<Longrightarrow> \<not> is_word [c]"
  by (simp add: is_word_def)

lemma no_adjacent_words_Cons_other:
  "\<not> is_word t \<Longrightarrow> no_adjacent_words (t # ts) = no_adjacent_words ts"
  by (cases ts) simp_all

lemma no_adjacent_words_Cons_word:
  "(ts = [] \<or> \<not> is_word (hd ts)) \<Longrightarrow> no_adjacent_words (t # ts) = no_adjacent_words ts"
  by (cases ts) auto

lemma others_valid:
  "list_all (\<lambda>c. \<not> is_word_char c) s \<Longrightarrow>
   list_all (\<lambda>t. is_word t \<or> is_other_char t) (list_of_str s)"
  by (induction s) (simp_all add: list_of_str_def is_other_char_def)

lemma others_no_adjacent:
  "list_all (\<lambda>c. \<not> is_word_char c) s \<Longrightarrow>
   no_adjacent_words (list_of_str s @ ts) = no_adjacent_words ts"
proof (induction s)
  case Nil
  then show ?case by (simp add: list_of_str_def)
next
  case (Cons c s)
  then have "\<not> is_word [c]" by (simp add: not_is_word_single)
  from no_adjacent_words_Cons_other [OF this] Cons show ?case
    by (simp add: list_of_str_def)
qed

lemma others_hd:
  "list_all (\<lambda>c. \<not> is_word_char c) s \<Longrightarrow> s \<noteq> [] \<Longrightarrow> \<not> is_word (hd (list_of_str s @ ts))"
  by (cases s) (simp_all add: list_of_str_def not_is_word_single)

lemma word_tokenize_loop_props:
  "offset \<le> length str \<Longrightarrow>
   concat (word_tokenize_loop str offset []) = drop offset str \<and>
   list_all (\<lambda>t. is_word t \<or> is_other_char t) (word_tokenize_loop str offset []) \<and>
   no_adjacent_words (word_tokenize_loop str offset []) \<and>
   (word_tokenize_loop str offset [] = [] \<or>
    \<not> is_word (hd (word_tokenize_loop str offset [])) \<or>
    (offset < length str \<and> is_word_char (str ! offset)))"
proof (induction "length str - offset" arbitrary: offset rule: less_induct)
  case less
  show ?case
  proof (cases "offset < length str")
    case False
    then show ?thesis by (simp add: word_tokenize_loop_end)
  next
    case True
    show ?thesis
    proof (cases "word_re_search str offset")
      case None
      note nw = word_re_search_None [OF None]
      from True have ne: "drop offset str \<noteq> []" by simp
      have T: "word_tokenize_loop str offset [] = list_of_str (drop offset str) @ []"
        using True None by (simp add: word_tokenize_loop_None)
      have "no_adjacent_words (list_of_str (drop offset str) @ [])"
        using others_no_adjacent [OF nw, of "[]"] by simp
      moreover have "\<not> is_word (hd (list_of_str (drop offset str) @ []))"
        by (rule others_hd [OF nw ne])
      moreover have "list_all (\<lambda>t. is_word t \<or> is_other_char t) (list_of_str (drop offset str) @ [])"
        using others_valid [OF nw] by simp
      ultimately show ?thesis unfolding T by simp
    next
      case (Some p)
      obtain ws we where p: "p = (ws, we)" by (cases p)
      with Some have S: "word_re_search str offset = Some (ws, we)" by simp
      note s = word_re_search_Some [OF S]
      let ?pre = "slice str offset ws"
      let ?w = "slice str ws we"
      let ?T' = "word_tokenize_loop str we []"
      have T: "word_tokenize_loop str offset [] = list_of_str ?pre @ ?w # ?T'"
        using True S by (rule word_tokenize_loop_Some)
      from s True have lt: "length str - we < length str - offset" by simp
      note ih = less.hyps [OF lt s(3)]
      from s have wne: "?w \<noteq> []" by (simp add: slice_def)
      with s(5) have w: "is_word ?w" by (simp add: is_word_def)
      have c: "concat (list_of_str ?pre @ ?w # ?T') = drop offset str"
      proof -
        have "concat (list_of_str ?pre @ ?w # ?T') = ?pre @ ?w @ drop we str"
          using ih by simp
        also have "\<dots> = ?pre @ drop ws str"
          using s(2) by (simp add: slice_append_drop)
        also have "\<dots> = drop offset str"
          using s(1) by (simp add: slice_append_drop)
        finally show ?thesis .
      qed
      have v: "list_all (\<lambda>t. is_word t \<or> is_other_char t) (list_of_str ?pre @ ?w # ?T')"
        using others_valid [OF s(4)] w ih by simp
      have "?T' = [] \<or> \<not> is_word (hd ?T')"
        using ih s(6) by blast
      then have "no_adjacent_words (?w # ?T')"
        using ih by (simp add: no_adjacent_words_Cons_word)
      then have n: "no_adjacent_words (list_of_str ?pre @ ?w # ?T')"
        by (simp add: others_no_adjacent [OF s(4)])
      have h: "\<not> is_word (hd (list_of_str ?pre @ ?w # ?T')) \<or>
               (offset < length str \<and> is_word_char (str ! offset))"
      proof (cases "?pre = []")
        case False
        then show ?thesis using others_hd [OF s(4) False] by simp
      next
        case True
        with s(1) \<open>offset < length str\<close> have "ws = offset" by (simp add: slice_def)
        with wne s(5) have "is_word_char (hd (slice str offset we))"
          by (cases "slice str offset we") simp_all
        moreover from \<open>ws = offset\<close> s(2) \<open>offset < length str\<close>
        have "hd (slice str offset we) = str ! offset"
          by (simp add: slice_def hd_drop_conv_nth)
        ultimately show ?thesis using \<open>offset < length str\<close> by simp
      qed
      from c v n h show ?thesis unfolding T by simp
    qed
  qed
qed

text \<open>
  C5 (word-mode tokenization). The tokens of \<open>word_tokenize\<close>, concatenated in order,
  are the input; each token is either a word (a non-empty run of characters of
  \<open>[a-zA-Z]\<close>, the alphabetic characters of the tokenizer) or a single character outside
  that class; no two word tokens are adjacent, so every word token is a maximal run;
  \<open>tokenize\<close> in the word model appends exactly one end-of-file symbol to them; and the
  input \<open>go go!\<close> gives \<open>go\<close>, a space, \<open>go\<close>, \<open>!\<close> and the end-of-file symbol.
\<close>

theorem word_tokenize_correct:
  "concat (word_tokenize str) = str
   \<and> list_all (\<lambda>t. is_word t \<or> is_other_char t) (word_tokenize str)
   \<and> no_adjacent_words (word_tokenize str)
   \<and> tokenize str (Some ''word'') = map Tok (word_tokenize str) @ [EOF_SYMBOL]
   \<and> tokenize ''go go!'' (Some ''word'')
       = [Tok ''go'', Tok '' '', Tok ''go'', Tok ''!'', EOF_SYMBOL]"
proof -
  have "tokenize ''go go!'' (Some ''word'')
       = [Tok ''go'', Tok '' '', Tok ''go'', Tok ''!'', EOF_SYMBOL]"
    by code_simp
  then show ?thesis
    using word_tokenize_loop_props [of 0 str]
    by (simp add: word_tokenize_def tokenize_def)
qed

theorem word_tokenize_correct_witness:
  "concat (word_tokenize ''a-b'') = ''a-b''
   \<and> word_tokenize ''a-b'' = [''a'', ''-'', ''b'']
   \<and> no_adjacent_words (word_tokenize ''a-b'')"
proof -
  have "word_tokenize ''a-b'' = [''a'', ''-'', ''b'']" by code_simp
  with word_tokenize_correct [of "''a-b''"] show ?thesis by simp
qed

section \<open>Properties of the code table\<close>

lemma dom_make_lut: "dom (make_lut t bits lut) = dom lut \<union> set (leaves t)"
  by (induction t arbitrary: bits lut) (auto simp: Let_def)

lemma make_lut_other: "s \<notin> set (leaves t) \<Longrightarrow> make_lut t bits lut s = lut s"
  by (induction t arbitrary: bits lut) (auto simp: Let_def)

lemma make_lut_path:
  "make_lut t bits lut s = Some p \<Longrightarrow>
   lut s = Some p \<or> (\<exists>q. p = bits @ q \<and> leaf_at t q = Some s)"
proof (induction t arbitrary: bits lut)
  case (HNodeLeaf v)
  then show ?case by (auto split: if_splits)
next
  case (HNode l r)
  from HNode.prems have "make_lut r (bits @ [True]) (make_lut l (bits @ [False]) lut) s = Some p"
    by (simp add: Let_def)
  from HNode.IH(2) [OF this]
  consider "make_lut l (bits @ [False]) lut s = Some p"
    | q where "p = (bits @ [True]) @ q" "leaf_at r q = Some s" by blast
  then show ?case
  proof cases
    case 1
    from HNode.IH(1) [OF this] show ?thesis
    proof
      assume "lut s = Some p" then show ?thesis ..
    next
      assume "\<exists>q. p = (bits @ [False]) @ q \<and> leaf_at l q = Some s"
      then obtain q where "p = bits @ False # q" "leaf_at (HNode l r) (False # q) = Some s"
        by auto
      then show ?thesis by blast
    qed
  next
    case 2
    then have "p = bits @ True # q" "leaf_at (HNode l r) (True # q) = Some s" by auto
    then show ?thesis by blast
  qed
qed

lemma make_lut_complete:
  "distinct (leaves t) \<Longrightarrow> leaf_at t q = Some s \<Longrightarrow> make_lut t bits lut s = Some (bits @ q)"
proof (induction t arbitrary: bits lut q)
  case (HNodeLeaf v)
  then show ?case by (auto split: if_splits)
next
  case (HNode l r)
  from HNode.prems(2) obtain b q' where q: "q = b # q'" by (cases q) auto
  from HNode.prems(1) have d: "distinct (leaves l)" "distinct (leaves r)"
    "set (leaves l) \<inter> set (leaves r) = {}" by auto
  have in_leaves: "leaf_at u p = Some x \<Longrightarrow> x \<in> set (leaves u)" for u :: "'a hnode" and p x
  proof (induction u arbitrary: p)
    case (HNodeLeaf v) then show ?case by (auto split: if_splits)
  next
    case (HNode u1 u2) then show ?case by (cases p) (auto split: if_splits)
  qed
  show ?case
  proof (cases b)
    case True
    with q HNode.prems(2) have "leaf_at r q' = Some s" by simp
    from HNode.IH(2) [OF d(2) this] True q show ?thesis by (simp add: Let_def)
  next
    case False
    with q HNode.prems(2) have l: "leaf_at l q' = Some s" by simp
    from in_leaves [OF l] d(3) have "s \<notin> set (leaves r)" by auto
    from make_lut_other [OF this] HNode.IH(1) [OF d(1) l] False q show ?thesis
      by (simp add: Let_def)
  qed
qed

lemma leaf_at_prefix:
  "leaf_at t p1 = Some s1 \<Longrightarrow> leaf_at t p2 = Some s2 \<Longrightarrow> prefix p1 p2 \<Longrightarrow> s1 = s2"
proof (induction t arbitrary: p1 p2)
  case (HNodeLeaf v)
  then show ?case by (auto split: if_splits)
next
  case (HNode l r)
  from HNode.prems(1) obtain b q1 where p1: "p1 = b # q1" by (cases p1) auto
  with HNode.prems(3) obtain q2 where p2: "p2 = b # q2" "prefix q1 q2"
    by (cases p2) auto
  show ?case
  proof (cases b)
    case True
    with HNode.prems p1 p2 HNode.IH(2) [of q1 q2] show ?thesis by simp
  next
    case False
    with HNode.prems p1 p2 HNode.IH(1) [of q1 q2] show ?thesis by simp
  qed
qed

text \<open>
  C8 (the code table of \<open>make_lut\<close>). For every tree, the table has an entry exactly
  for the symbols held by the leaves; the entry of a symbol is the bit sequence of a
  path from the root to a leaf holding it, and when no symbol is held by two leaves
  every root-to-leaf path is the entry of its symbol; and the codes of two distinct
  symbols are never a prefix of one another.
\<close>

theorem make_lut_prefix_free:
  "dom (make_lut t [] Map.empty) = set (leaves t)
   \<and> (\<forall>s p. make_lut t [] Map.empty s = Some p \<longrightarrow> leaf_at t p = Some s)
   \<and> (distinct (leaves t) \<longrightarrow>
        (\<forall>s p. leaf_at t p = Some s \<longrightarrow> make_lut t [] Map.empty s = Some p))
   \<and> (\<forall>s1 s2 p1 p2. s1 \<noteq> s2 \<and> make_lut t [] Map.empty s1 = Some p1
          \<and> make_lut t [] Map.empty s2 = Some p2
        \<longrightarrow> \<not> prefix p1 p2 \<and> \<not> prefix p2 p1)"
proof (intro conjI allI impI)
  show "dom (make_lut t [] Map.empty) = set (leaves t)"
    by (simp add: dom_make_lut)
next
  fix s p
  assume "make_lut t [] Map.empty s = Some p"
  from make_lut_path [OF this] show "leaf_at t p = Some s" by simp
next
  fix s p
  assume "distinct (leaves t)" "leaf_at t p = Some s"
  from make_lut_complete [OF this, of "[]" Map.empty]
  show "make_lut t [] Map.empty s = Some p" by simp
next
  fix s1 s2 p1 p2
  assume a: "s1 \<noteq> s2 \<and> make_lut t [] Map.empty s1 = Some p1
    \<and> make_lut t [] Map.empty s2 = Some p2"
  then have "make_lut t [] Map.empty s1 = Some p1" "make_lut t [] Map.empty s2 = Some p2"
    by blast+
  then have l: "leaf_at t p1 = Some s1" "leaf_at t p2 = Some s2"
    using make_lut_path [of t "[]" Map.empty] by fastforce+
  from a leaf_at_prefix [OF l] show "\<not> prefix p1 p2" by blast
  from a leaf_at_prefix [OF l(2) l(1)] show "\<not> prefix p2 p1" by blast
qed

theorem make_lut_prefix_free_witness:
  "make_lut (HNode (HNodeLeaf EOF_SYMBOL) (HNode (HNodeLeaf (Tok ''a'')) (HNodeLeaf (Tok ''b''))))
       [] Map.empty (Tok ''b'') = Some [True, True]
   \<and> leaf_at (HNode (HNodeLeaf EOF_SYMBOL) (HNode (HNodeLeaf (Tok ''a'')) (HNodeLeaf (Tok ''b''))))
       [True, True] = Some (Tok ''b'')
   \<and> make_lut (HNode (HNodeLeaf EOF_SYMBOL) (HNode (HNodeLeaf (Tok ''a'')) (HNodeLeaf (Tok ''b''))))
       [] Map.empty EOF_SYMBOL = Some [False]
   \<and> \<not> prefix [False] [True, True]
   \<and> dom (make_lut (HNode (HNodeLeaf EOF_SYMBOL) (HNode (HNodeLeaf (Tok ''a'')) (HNodeLeaf (Tok ''b''))))
       [] Map.empty) = {EOF_SYMBOL, Tok ''a'', Tok ''b''}"
  using make_lut_prefix_free
    [of "HNode (HNodeLeaf EOF_SYMBOL) (HNode (HNodeLeaf (Tok ''a'')) (HNodeLeaf (Tok ''b'')))"]
  by (simp add: Let_def)

section \<open>Properties of the tree construction\<close>

lemma set_first_occurrences [simp]: "set (first_occurrences xs) = set xs"
  by (induction xs) auto

lemma distinct_first_occurrences [simp]: "distinct (first_occurrences xs)"
  by (induction xs) (auto simp: distinct_removeAll)

lemma keys_increment:
  "map fst (increment t kcs) =
     (if t \<in> set (map fst kcs) then map fst kcs else map fst kcs @ [t])"
  by (induction kcs) (force split: if_splits)+

lemma keys_fold_increment:
  "map fst (fold increment ts acc) =
     map fst acc @ filter (\<lambda>t. t \<notin> set (map fst acc)) (first_occurrences ts)"
proof (induction ts arbitrary: acc)
  case Nil
  then show ?case by simp
next
  case (Cons t ts)
  show ?case
  proof (cases "t \<in> set (map fst acc)")
    case True
    then have "filter (\<lambda>t. t \<notin> set (map fst acc)) (removeAll t (first_occurrences ts))
               = filter (\<lambda>t. t \<notin> set (map fst acc)) (first_occurrences ts)"
      by (auto simp: removeAll_filter_not_eq intro: filter_cong)
    with True Cons.IH [of "increment t acc"] show ?thesis
      by (simp add: keys_increment)
  next
    case False
    have "filter (\<lambda>x. x \<notin> set (map fst acc @ [t])) (first_occurrences ts)
          = filter (\<lambda>x. x \<notin> set (map fst acc)) (removeAll t (first_occurrences ts))"
      by (auto simp: removeAll_filter_not_eq intro: filter_cong)
    with False Cons.IH [of "increment t acc"] show ?thesis
      by (simp add: keys_increment)
  qed
qed

lemma keys_count_tokens: "map fst (count_tokens tokens) = first_occurrences tokens"
  by (simp add: count_tokens_def keys_fold_increment)

lemma leaves_calc_probabilites:
  "map (\<lambda>x. leaves (ob_value x)) (calc_probabilites fdiv tokens)
     = map (\<lambda>t. [t]) (first_occurrences tokens)"
proof -
  have "map (\<lambda>x. leaves (ob_value x)) (calc_probabilites fdiv tokens)
        = map (\<lambda>t. [t]) (map fst (count_tokens tokens))"
    by (simp add: calc_probabilites_def Let_def case_prod_beta)
  then show ?thesis by (simp add: keys_count_tokens)
qed

lemma sum_mset_singletons: "(\<Sum>l\<in>#mset (map (\<lambda>t. [t]) ys). mset l) = mset ys"
  by (induction ys) simp_all

lemma forest_leaves_mset:
  "forest_leaves (mset xs) = (\<Sum>l\<in>#mset (map (\<lambda>x. leaves (ob_value x)) xs). mset l)"
  by (induction xs) (simp_all add: forest_leaves_def)

lemma forest_leaves_calc_probabilites:
  "forest_leaves (mset (calc_probabilites fdiv tokens)) = mset (first_occurrences tokens)"
  by (simp only: forest_leaves_mset leaves_calc_probabilites sum_mset_singletons)

lemma build_tree_loop_result:
  "heap \<noteq> [] \<Longrightarrow>
   \<exists>x. build_tree_loop heap = Inr [x] \<and>
       mset (leaves (ob_value x)) = forest_leaves (mset heap)"
proof (induction heap rule: build_tree_loop.induct)
  case (1 heap)
  show ?case
  proof (cases "length heap > 1")
    case False
    with "1.prems" obtain x where "heap = [x]" by (cases heap) auto
    then show ?thesis by (simp add: build_tree_loop.simps forest_leaves_def)
  next
    case True
    obtain l heap1 where l: "heappop OrderBy_lt heap = Inr (l, heap1)"
      "add_mset l (mset heap1) = mset heap"
      using heappop_Inr [OF "1.prems", of OrderBy_lt] by blast
    from heappop_length [OF l(1)] True have ne1: "heap1 \<noteq> []" by auto
    obtain r heap2 where r: "heappop OrderBy_lt heap1 = Inr (r, heap2)"
      "add_mset r (mset heap2) = mset heap1"
      using heappop_Inr [OF ne1, of OrderBy_lt] by blast
    let ?n = "OrderBy (HNode (ob_value l) (ob_value r)) (ob_p l + ob_p r)"
    obtain heap3 where p: "heappush OrderBy_lt heap2 ?n = Inr heap3"
      "mset heap3 = add_mset ?n (mset heap2)"
      using heappush_Inr [of OrderBy_lt heap2 ?n] by blast
    from p(2) have ne3: "heap3 \<noteq> []" by auto
    have "forest_leaves (mset heap3) = forest_leaves (mset heap)"
      unfolding p(2) l(2) [symmetric] r(2) [symmetric]
      by (simp add: forest_leaves_def)
    moreover have "build_tree_loop heap = build_tree_loop heap3"
      using True l(1) r(1) p(1) by (subst build_tree_loop.simps) simp
    moreover note "1.IH" [OF True l(1) refl r(1) refl p(1) ne3]
    ultimately show ?thesis by simp
  qed
qed

lemma build_tree_result:
  assumes "token_probs \<noteq> []"
  shows "\<exists>tree. build_tree token_probs = Inr tree \<and>
           mset (leaves tree) = forest_leaves (mset token_probs)"
proof -
  obtain heap where h: "heapify OrderBy_lt token_probs = Inr heap" "mset heap = mset token_probs"
    using heapify_Inr [of OrderBy_lt token_probs] by blast
  from h(2) assms have "heap \<noteq> []" by auto
  from build_tree_loop_result [OF this] obtain x where
    x: "build_tree_loop heap = Inr [x]" "mset (leaves (ob_value x)) = forest_leaves (mset heap)"
    by blast
  from h x have "build_tree token_probs = Inr (ob_value x)" by (simp add: build_tree_def)
  with x(2) h(2) show ?thesis by simp
qed

lemma calc_probabilites_nonempty: "tokens \<noteq> [] \<Longrightarrow> calc_probabilites fdiv tokens \<noteq> []"
proof -
  assume "tokens \<noteq> []"
  then have "first_occurrences tokens \<noteq> []" by (cases tokens) simp_all
  with leaves_calc_probabilites [of fdiv tokens] show ?thesis by auto
qed

lemma build_tree_leaves:
  assumes "tokens \<noteq> []"
  shows "\<exists>tree. build_tree (calc_probabilites fdiv tokens) = Inr tree \<and>
           mset (leaves tree) = mset (first_occurrences tokens)"
  using build_tree_result [OF calc_probabilites_nonempty [OF assms, of fdiv]]
  by (simp add: forest_leaves_calc_probabilites)

lemma leaves_nonempty: "leaves t \<noteq> []"
  by (induction t) simp_all

lemma internal_nodes_leaves: "internal_nodes t + 1 = length (leaves t)"
  by (induction t) simp_all

lemma single_leaf: "leaves t = [v] \<Longrightarrow> t = HNodeLeaf v"
proof (cases t)
  case (HNodeLeaf x)
  assume "leaves t = [v]"
  with HNodeLeaf show ?thesis by simp
next
  case (HNode l r)
  assume "leaves t = [v]"
  with HNode have "length (leaves l) + length (leaves r) = 1"
    by (metis leaves.simps(2) length_append length_Cons list.size(3) One_nat_def)
  moreover have "length (leaves l) > 0" "length (leaves r) > 0"
    using leaves_nonempty by blast+
  ultimately show ?thesis by simp
qed

text \<open>
  C7 (leaves of the built tree). For a non-empty token sequence, whatever the
  probabilities compare and add to, \<open>build_tree\<close> returns a tree whose leaves hold
  exactly the distinct symbols of the sequence, each on one leaf: the number of leaves is
  the number of distinct symbols. Every \<open>HNode\<close> has its two children, so the number
  of \<open>HNode\<close> nodes is one less than the number of leaves. With a single distinct
  symbol the tree returned is the leaf holding it.
\<close>

theorem build_tree_one_leaf_per_symbol:
  fixes fdiv :: "nat \<Rightarrow> nat \<Rightarrow> 'p::{ord,plus}"
  assumes "tokens \<noteq> []"
  shows "\<exists>tree. build_tree (calc_probabilites fdiv tokens) = Inr tree
           \<and> mset (leaves tree) = mset (first_occurrences tokens)
           \<and> distinct (leaves tree)
           \<and> set (leaves tree) = set tokens
           \<and> length (leaves tree) = card (set tokens)
           \<and> internal_nodes tree + 1 = card (set tokens)
           \<and> (card (set tokens) = 1 \<longrightarrow> tree = HNodeLeaf (hd tokens))"
proof -
  from build_tree_leaves [OF assms, of fdiv] obtain tree where
    t: "build_tree (calc_probabilites fdiv tokens) = Inr tree"
       "mset (leaves tree) = mset (first_occurrences tokens)"
    by blast
  from t(2) have d: "distinct (leaves tree)"
    by (metis distinct_first_occurrences mset_eq_imp_distinct_iff)
  from t(2) have s: "set (leaves tree) = set tokens"
    by (metis set_first_occurrences mset_eq_setD)
  from d s have l: "length (leaves tree) = card (set tokens)"
    by (metis distinct_card)
  have "tree = HNodeLeaf (hd tokens)" if "card (set tokens) = 1"
  proof -
    from that l obtain v where v: "leaves tree = [v]"
      by (cases "leaves tree") (auto simp: length_Suc_conv)
    with s have "set tokens = {v}" by simp
    with assms have "hd tokens = v" by (cases tokens) auto
    with single_leaf [OF v] show ?thesis by simp
  qed
  with t d s l internal_nodes_leaves [of tree] show ?thesis by simp
qed

theorem build_tree_one_leaf_per_symbol_witness:
  "tokenize ''a'' None \<noteq> []
   \<and> (\<exists>tree. build_tree (calc_probabilites exact_fdiv (tokenize ''a'' None)) = Inr tree
          \<and> set (leaves tree) = {Tok ''a'', EOF_SYMBOL} \<and> length (leaves tree) = 2)
   \<and> tokenize '''' None \<noteq> []
   \<and> build_tree (calc_probabilites exact_fdiv (tokenize '''' None)) = Inr (HNodeLeaf EOF_SYMBOL)"
proof -
  have ne: "tokenize ''a'' None \<noteq> []" "tokenize '''' None \<noteq> []"
    by (simp_all add: tokenize_def)
  have c: "card (set (tokenize ''a'' None)) = 2" "card (set (tokenize '''' None)) = 1"
    "hd (tokenize '''' None) = EOF_SYMBOL"
    "set (tokenize ''a'' None) = {Tok ''a'', EOF_SYMBOL}"
    by (simp_all add: tokenize_def list_of_str_def)
  from build_tree_one_leaf_per_symbol [OF ne(1), of exact_fdiv]
    build_tree_one_leaf_per_symbol [OF ne(2), of exact_fdiv] ne
  show ?thesis unfolding c by auto
qed

section \<open>Properties of the encoder\<close>

lemma compress_loop_ok:
  "set tokens \<subseteq> dom lut \<Longrightarrow> \<exists>bitstream'. compress_loop lut tokens bitstream = Inr bitstream'"
  by (induction tokens arbitrary: bitstream) auto

text \<open>
  C9 (no failed lookup). When the tree is the one built from the probabilities of the
  token sequence that is encoded, the code table made from it has an entry for every
  token of the sequence, and \<open>compress\<close> returns the compressed file: the \<open>KeyError\<close>
  of a failed lookup is not raised.
\<close>

theorem compress_lookup_succeeds:
  fixes fdiv :: "nat \<Rightarrow> nat \<Rightarrow> 'p::{ord,plus}"
  assumes "tokens \<noteq> []"
  shows "\<exists>tree compressedfile.
           build_tree (calc_probabilites fdiv tokens) = Inr tree
           \<and> list_all (\<lambda>token. make_lut tree [] Map.empty token \<noteq> None) tokens
           \<and> compress tokens tree = Inr compressedfile"
proof -
  from build_tree_leaves [OF assms, of fdiv] obtain tree where
    t: "build_tree (calc_probabilites fdiv tokens) = Inr tree"
       "mset (leaves tree) = mset (first_occurrences tokens)"
    by blast
  from t(2) have "set (leaves tree) = set tokens"
    by (metis set_first_occurrences mset_eq_setD)
  then have dom: "set tokens \<subseteq> dom (make_lut tree [] Map.empty)"
    by (simp add: dom_make_lut)
  then have "list_all (\<lambda>token. make_lut tree [] Map.empty token \<noteq> None) tokens"
    by (auto simp: list_all_iff)
  moreover from compress_loop_ok [OF dom, of OutputBitstream_init]
  obtain bitstream' where
    "compress_loop (make_lut tree [] Map.empty) tokens OutputBitstream_init = Inr bitstream'"
    by blast
  then have "compress tokens tree = Inr (out_file bitstream')"
    by (simp add: compress_def)
  ultimately show ?thesis using t(1) by blast
qed

theorem compress_lookup_succeeds_witness:
  "tokenize ''abc'' None \<noteq> []
   \<and> (\<exists>tree compressedfile.
        build_tree (calc_probabilites exact_fdiv (tokenize ''abc'' None)) = Inr tree
        \<and> compress (tokenize ''abc'' None) tree = Inr compressedfile)
   \<and> compress (tokenize ''abc'' None)
        (HNode (HNode (HNodeLeaf (Tok ''c'')) (HNodeLeaf (Tok ''a'')))
               (HNode (HNodeLeaf EOF_SYMBOL) (HNodeLeaf (Tok ''b'')))) = Inr [114]"
proof -
  have ne: "tokenize ''abc'' None \<noteq> []" by (simp add: tokenize_def)
  have "compress (tokenize ''abc'' None)
        (HNode (HNode (HNodeLeaf (Tok ''c'')) (HNodeLeaf (Tok ''a'')))
               (HNode (HNodeLeaf EOF_SYMBOL) (HNodeLeaf (Tok ''b'')))) = Inr [114]"
    by code_simp
  with compress_lookup_succeeds [OF ne, of exact_fdiv] ne show ?thesis by blast
qed

section \<open>Properties of the decoder\<close>

lemma popleft_exhausted:
  "remaining_bits s = [] \<Longrightarrow> popleft s = Inl IndexError"
  by (cases "buffer s")
     (simp_all add: popleft_cases remaining_bits_def unpack_byte_bits)

lemma popleft_next:
  "remaining_bits s = b # bs \<Longrightarrow>
   \<exists>s'. popleft s = Inr (b, s') \<and> remaining_bits s' = bs"
proof (cases "bit_buffer s")
  case (Cons c cs)
  assume "remaining_bits s = b # bs"
  with Cons show ?thesis by (simp add: popleft_cases remaining_bits_def)
next
  case Nil
  assume r: "remaining_bits s = b # bs"
  with Nil obtain byte rest where "buffer s = byte # rest"
    by (cases "buffer s") (simp_all add: remaining_bits_def)
  with Nil r show ?thesis
    by (simp add: popleft_cases remaining_bits_def unpack_byte_bits)
qed

lemma decode_descend:
  "(spec_descend t (remaining_bits s) = None \<longrightarrow> decode t s = Inl IndexError) \<and>
   (\<forall>v rest. spec_descend t (remaining_bits s) = Some (v, rest) \<longrightarrow>
      (\<exists>s'. decode t s = Inr (v, s') \<and> remaining_bits s' = rest))"
proof (induction t arbitrary: s)
  case (HNodeLeaf x)
  then show ?case by simp
next
  case (HNode l r)
  show ?case
  proof (cases "remaining_bits s")
    case Nil
    then show ?thesis by (simp add: popleft_exhausted)
  next
    case (Cons b bs)
    from popleft_next [OF Cons] obtain s' where
      s': "popleft s = Inr (b, s')" "remaining_bits s' = bs" by blast
    with Cons HNode.IH(1) [of s'] HNode.IH(2) [of s'] show ?thesis
      by (cases b) simp_all
  qed
qed

lemma decode_None:
  "spec_descend t (remaining_bits s) = None \<Longrightarrow> decode t s = Inl IndexError"
  using decode_descend [of t s] by blast

lemma decode_Some:
  "spec_descend t (remaining_bits s) = Some (v, rest) \<Longrightarrow>
   \<exists>s'. decode t s = Inr (v, s') \<and> remaining_bits s' = rest"
  using decode_descend [of t s] by blast

lemma decode_Inl:
  "decode t s = Inl e \<Longrightarrow> e = IndexError \<and> spec_descend t (remaining_bits s) = None"
proof (cases "spec_descend t (remaining_bits s)")
  case None
  assume "decode t s = Inl e"
  with decode_None [OF None] None show ?thesis by simp
next
  case (Some p)
  assume d: "decode t s = Inl e"
  obtain v rest where "p = (v, rest)" by (cases p)
  with Some decode_Some [of t s v rest] d show ?thesis by auto
qed

lemma decode_Inr:
  "decode t s = Inr (v, s') \<Longrightarrow> spec_descend t (remaining_bits s) = Some (v, remaining_bits s')"
proof (cases "spec_descend t (remaining_bits s)")
  case None
  assume "decode t s = Inr (v, s')"
  with decode_None [OF None] show ?thesis by simp
next
  case (Some p)
  assume d: "decode t s = Inr (v, s')"
  obtain w rest where "p = (w, rest)" by (cases p)
  with Some decode_Some [of t s w rest] d show ?thesis by auto
qed

lemma decompress_loop_sound:
  assumes "decompress_loop tree s out = Some res"
  shows "spec_decoder tree (remaining_bits s) out (fst res, bits_left (snd res))"
proof (rule decompress_loop.raw_induct [OF _ assms], goal_cases)
  case (1 loop tree s out res)
  note IH = "1"(1) and eq = "1"(2)
  show ?case
  proof (cases "decode tree s")
    case (Inl e)
    with eq have "res = (out, Inl e)" by simp
    with decode_Inl [OF Inl] show ?thesis
      by (simp add: spec_decoder.truncated bits_left_def)
  next
    case (Inr p)
    obtain token s' where p: "p = (token, s')" by (cases p)
    note d = decode_Inr [OF Inr [unfolded p]]
    show ?thesis
    proof (cases token)
      case EOF_SYMBOL
      with eq Inr p have "res = (out, Inr s')" by simp
      with d EOF_SYMBOL show ?thesis by (simp add: spec_decoder.sentinel bits_left_def)
    next
      case (Tok str)
      with eq Inr p have "loop tree s' (out @ str) = Some res" by simp
      from IH [OF this]
      have "spec_decoder tree (remaining_bits s') (out @ str) (fst res, bits_left (snd res))" .
      moreover from d Tok
      have "spec_descend tree (remaining_bits s) = Some (Tok str, remaining_bits s')" by simp
      ultimately show ?thesis by (rule spec_decoder.emit [rotated])
    qed
  qed
qed

lemma decompress_loop_complete:
  "spec_decoder tree bits out r \<Longrightarrow> bits = remaining_bits s \<Longrightarrow>
   \<exists>res. decompress_loop tree s out = Some (fst r, res) \<and> bits_left res = snd r"
proof (induction arbitrary: s rule: spec_decoder.induct)
  case (truncated bits out)
  then have "decode tree s = Inl IndexError" by (simp add: decode_None)
  then show ?case by (subst decompress_loop.simps) (simp add: bits_left_def)
next
  case (sentinel bits rest out)
  then obtain s' where "decode tree s = Inr (EOF_SYMBOL, s')" "remaining_bits s' = rest"
    using decode_Some [of tree s EOF_SYMBOL rest] by auto
  then show ?case by (subst decompress_loop.simps) (simp add: bits_left_def)
next
  case (emit bits str rest out res)
  then obtain s' where s': "decode tree s = Inr (Tok str, s')" "remaining_bits s' = rest"
    using decode_Some [of tree s "Tok str" rest] by auto
  from emit.IH [OF s'(2) [symmetric]] obtain r' where
    "decompress_loop tree s' (out @ str) = Some (fst res, r')" "bits_left r' = snd res"
    by blast
  moreover have "decompress_loop tree s out = decompress_loop tree s' (out @ str)"
    using s'(1) by (subst decompress_loop.simps) simp
  ultimately show ?case by simp
qed

lemma spec_descend_shorter:
  "spec_descend (HNode l r) bits = Some (v, rest) \<Longrightarrow> length rest < length bits"
proof -
  have le: "spec_descend t bs = Some (v, rest) \<Longrightarrow> length rest \<le> length bs"
    for t :: "'a hnode" and bs
  proof (induction t arbitrary: bs)
    case (HNodeLeaf x) then show ?case by simp
  next
    case (HNode t1 t2)
    then show ?case by (cases bs) (auto split: if_splits intro: le_SucI)
  qed
  assume a: "spec_descend (HNode l r) bits = Some (v, rest)"
  then obtain b bs where "bits = b # bs" by (cases bits) auto
  with a le [of l bs] le [of r bs] show ?thesis by (auto split: if_splits)
qed

lemma spec_decoder_total:
  "\<exists>res. spec_decoder (HNode l r) bits out res"
proof (induction "length bits" arbitrary: bits out rule: less_induct)
  case less
  show ?case
  proof (cases "spec_descend (HNode l r) bits")
    case None
    then show ?thesis by (blast intro: spec_decoder.truncated)
  next
    case (Some p)
    obtain v rest where p: "p = (v, rest)" by (cases p)
    show ?thesis
    proof (cases v)
      case EOF_SYMBOL
      with Some p show ?thesis by (blast intro: spec_decoder.sentinel)
    next
      case (Tok str)
      from Some p have "length rest < length bits" by (simp add: spec_descend_shorter)
      from less [OF this, of "out @ str"] obtain res where
        "spec_decoder (HNode l r) rest (out @ str) res" by blast
      moreover from Some p Tok
      have "spec_descend (HNode l r) bits = Some (Tok str, rest)" by simp
      ultimately have "spec_decoder (HNode l r) bits out res"
        by (rule spec_decoder.emit [rotated])
      then show ?thesis ..
    qed
  qed
qed

lemma spec_decoder_leaf_diverges:
  "spec_decoder tree bits out res \<Longrightarrow> tree = HNodeLeaf (Tok str) \<Longrightarrow> False"
  by (induction rule: spec_decoder.induct) simp_all

lemma decompress_loop_returns:
  assumes "\<forall>str. tree \<noteq> HNodeLeaf (Tok str)"
  shows "\<exists>res. decompress_loop tree s out = Some res"
proof (cases tree)
  case (HNode l r)
  from spec_decoder_total [of l r "remaining_bits s" out] obtain res where
    "spec_decoder tree (remaining_bits s) out res" unfolding HNode by blast
  from decompress_loop_complete [OF this refl] show ?thesis by blast
next
  case (HNodeLeaf v)
  with assms have "v = EOF_SYMBOL" by (cases v) auto
  with HNodeLeaf show ?thesis by (subst decompress_loop.simps) simp
qed

text \<open>
  C4 (the decoder). \<open>decompress\<close> is the state machine of the specification on the
  bits of the stream: every result of its loop is a result of a run of that machine,
  and every run of the machine is a result of the loop, with the same output and the
  same bits left over. So it descends left on 0 and right on 1, emits the symbol of a
  leaf and restarts from the root, stops at the end-of-file symbol without emitting it
  and with the bits after its code unread, and raises \<open>IndexError\<close> (the truncated
  stream error), with nothing emitted for the unfinished descent, when the bits run out
  before a leaf. The loop returns for every tree and stream except when the tree is a
  single leaf holding a string, where it never returns.
\<close>

theorem decompress_follows_decoder:
  "(\<forall>res. decompress_loop tree s out = Some res \<longrightarrow>
       spec_decoder tree (remaining_bits s) out (fst res, bits_left (snd res)))
   \<and> (\<forall>r. spec_decoder tree (remaining_bits s) out r \<longrightarrow>
       (\<exists>res. decompress_loop tree s out = Some (fst r, res) \<and> bits_left res = snd r))
   \<and> ((decompress_loop tree s out = None) = (\<exists>str. tree = HNodeLeaf (Tok str)))"
proof (intro conjI allI impI)
  fix res
  assume "decompress_loop tree s out = Some res"
  then show "spec_decoder tree (remaining_bits s) out (fst res, bits_left (snd res))"
    by (rule decompress_loop_sound)
next
  fix r
  assume "spec_decoder tree (remaining_bits s) out r"
  from decompress_loop_complete [OF this refl]
  show "\<exists>res. decompress_loop tree s out = Some (fst r, res) \<and> bits_left res = snd r" .
next
  show "(decompress_loop tree s out = None) = (\<exists>str. tree = HNodeLeaf (Tok str))"
  proof
    assume "decompress_loop tree s out = None"
    with decompress_loop_returns [of tree s out] show "\<exists>str. tree = HNodeLeaf (Tok str)"
      by auto
  next
    assume "\<exists>str. tree = HNodeLeaf (Tok str)"
    then obtain str where t: "tree = HNodeLeaf (Tok str)" ..
    show "decompress_loop tree s out = None"
    proof (cases "decompress_loop tree s out")
      case None
      then show ?thesis .
    next
      case (Some res)
      from spec_decoder_leaf_diverges [OF decompress_loop_sound [OF Some] t]
      show ?thesis ..
    qed
  qed
qed

theorem decompress_follows_decoder_witness:
  "decompress (HNode (HNodeLeaf EOF_SYMBOL) (HNodeLeaf (Tok ''a''))) [224]
     = Some (''aaa'', Inr \<lparr>buffer = [], bit_buffer = [False, False, False, False]\<rparr>)
   \<and> spec_decoder (HNode (HNodeLeaf EOF_SYMBOL) (HNodeLeaf (Tok ''a'')))
        [True, True, True, False, False, False, False, False] []
        (''aaa'', Inr [False, False, False, False])"
proof -
  let ?t = "HNode (HNodeLeaf EOF_SYMBOL) (HNodeLeaf (Tok ''a''))"
  have e: "decompress_loop ?t (InputBitstream_init [224]) []
     = Some (''aaa'', Inr \<lparr>buffer = [], bit_buffer = [False, False, False, False]\<rparr>)"
    by code_simp
  have r: "remaining_bits (InputBitstream_init [224])
     = [True, True, True, False, False, False, False, False]"
    by code_simp
  have r': "remaining_bits \<lparr>buffer = [], bit_buffer = [False, False, False, False]\<rparr>
     = [False, False, False, False]"
    by (simp add: remaining_bits_def)
  from decompress_follows_decoder [of ?t "InputBitstream_init [224]" "[]"] e
  show ?thesis
    by (simp add: decompress_def r r' bits_left_def)
qed

end
